theory Spec2Isabelle
  imports Main "HOL-Library.Word"
begin

section \<open>Data model of weed/s3api/s3api_circuit_breaker.go\<close>

text \<open>
  Go's \<open>int64\<close> is a 64-bit two's complement word: \<open>+\<close> and \<open>-\<close> wrap around, and
  the comparison \<open>a > b\<close> of the source is the signed comparison \<open>b <s a\<close>.
\<close>

type_synonym int64 = "64 word"

text \<open>The three values of \<open>s3err.ErrorCode\<close> that this file uses.\<close>

datatype ErrorCode = ErrNone | ErrTooManyRequest | ErrRequestBytesExceed

text \<open>
  \<open>s3_pb.S3CircuitBreakerOptions\<close> and \<open>s3_pb.S3CircuitBreakerConfig\<close>, as the loader
  reads them. A Go map that the loader ranges over is an association list: the order
  of the list is the order in which that run of the loop visits the entries, so a
  statement about every list is a statement about every iteration order.
\<close>

record S3CircuitBreakerOptions =
  opt_Enabled :: bool
  Actions :: "(string \<times> int64) list"

record S3CircuitBreakerConfig =
  Global :: "S3CircuitBreakerOptions option"
  Buckets :: "(string \<times> S3CircuitBreakerOptions) list"

text \<open>
  The struct \<open>CircuitBreaker\<close>. A counter is an \<open>*atomic.Int64\<close> that is installed
  under its key once and never replaced or removed, so the pointer is identified with
  the key and the store maps a key to the current value of its counter.
\<close>

record CircuitBreaker =
  Enabled :: bool
  counters :: "string \<rightharpoonup> int64"
  limitations :: "string \<rightharpoonup> int64"

text \<open>What the gate reads of an \<open>*http.Request\<close>: \<open>r.ContentLength\<close> and \<open>mux.Vars(r)\<close>.\<close>

record Request =
  ContentLength :: int64
  Vars :: "string \<rightharpoonup> string"

section \<open>The package \<open>s3_config\<close>\<close>

text \<open>
  Modelled from the spec: the package \<open>s3_config\<close> (\<open>Concat\<close>, \<open>Separator\<close>,
  \<open>LimitTypeCount\<close>, \<open>LimitTypeBytes\<close>) is not among the sources. The spec names the
  metric kinds "count" and "bytes" and calls a limit key the composite of scope, action
  and metric kind; \<open>Concat\<close> joins its arguments with the separator \<open>:\<close>, as
  \<open>strings.Join(elements, Separator)\<close> does.
\<close>

definition Separator :: string where
  "Separator = '':''"

definition LimitTypeCount :: string where
  "LimitTypeCount = ''count''"

definition LimitTypeBytes :: string where
  "LimitTypeBytes = ''bytes''"

fun Concat :: "string list \<Rightarrow> string" where
  "Concat [] = []"
| "Concat [x] = x"
| "Concat (x # y # ys) = x @ Separator @ Concat (y # ys)"

section \<open>Loading the configuration\<close>

text \<open>
  The two \<open>range\<close> loops of \<open>loadCircuitBreakerConfig\<close>. The global loop stores a limit
  under the key of the configuration entry as it is; the bucket loop stores it under
  \<open>Concat(bucket, action)\<close>.
\<close>

definition copy_global_actions ::
  "(string \<times> int64) list \<Rightarrow> (string \<rightharpoonup> int64) \<Rightarrow> (string \<rightharpoonup> int64)" where
  "copy_global_actions acts m = fold (\<lambda>(action, limit) m'. m'(action \<mapsto> limit)) acts m"

definition copy_bucket_actions ::
  "string \<Rightarrow> (string \<times> int64) list \<Rightarrow> (string \<rightharpoonup> int64) \<Rightarrow> (string \<rightharpoonup> int64)" where
  "copy_bucket_actions bucket acts m =
     fold (\<lambda>(action, limit) m'. m'(Concat [bucket, action] \<mapsto> limit)) acts m"

definition copy_buckets ::
  "(string \<times> S3CircuitBreakerOptions) list \<Rightarrow> (string \<rightharpoonup> int64) \<Rightarrow> (string \<rightharpoonup> int64)" where
  "copy_buckets bs m =
     fold (\<lambda>(bucket, cbOptions) m'.
             if opt_Enabled cbOptions then copy_bucket_actions bucket (Actions cbOptions) m'
             else m') bs m"

text \<open>
  \<open>loadCircuitBreakerConfig\<close> returns the error (always \<open>nil\<close>, here \<open>None\<close>) and the
  circuit breaker with \<open>Enabled\<close> and \<open>limitations\<close> assigned.
\<close>

definition loadCircuitBreakerConfig ::
  "S3CircuitBreakerConfig \<Rightarrow> CircuitBreaker \<Rightarrow> string option \<times> CircuitBreaker" where
  "loadCircuitBreakerConfig cfg cb =
     (let globalOptions = Global cfg;
          (globalEnabled, limitations1) =
             (case globalOptions of
                None \<Rightarrow> (False, Map.empty)
              | Some g \<Rightarrow>
                  if opt_Enabled g \<and> length (Actions g) > 0
                  then (opt_Enabled g, copy_global_actions (Actions g) Map.empty)
                  else (False, Map.empty));
          cb1 = cb\<lparr>Enabled := globalEnabled\<rparr>;
          limitations2 = copy_buckets (Buckets cfg) limitations1
      in (None, cb1\<lparr>limitations := limitations2\<rparr>))"

text \<open>
  \<open>filer.ParseS3ConfigurationFromBytes\<close> is an external decoder: it is the parameter
  \<open>parse\<close>, which gives the message of its error or the decoded configuration.
\<close>

definition LoadS3ApiConfigurationFromBytes ::
  "(8 word list \<Rightarrow> string + S3CircuitBreakerConfig) \<Rightarrow> 8 word list \<Rightarrow> CircuitBreaker
     \<Rightarrow> string option \<times> CircuitBreaker" where
  "LoadS3ApiConfigurationFromBytes parse content cb =
     (case parse content of
        Inl err \<Rightarrow> (Some (''unmarshal error: '' @ err), cb)
      | Inr cbCfg \<Rightarrow>
          (case loadCircuitBreakerConfig cbCfg cb of
             (Some err, cb') \<Rightarrow> (Some err, cb')
           | (None, cb') \<Rightarrow> (None, cb')))"

text \<open>
  \<open>NewCircuitBreaker\<close>: \<open>rd\<close> is the outcome of reading the configuration file inside
  the filer, the message of the read error or the content. A load error is only
  logged, and the circuit breaker is returned as it then is.
\<close>

definition NewCircuitBreaker ::
  "(8 word list \<Rightarrow> string + S3CircuitBreakerConfig) \<Rightarrow> string + 8 word list \<Rightarrow> CircuitBreaker" where
  "NewCircuitBreaker parse rd =
     (let cb = \<lparr>Enabled = False, counters = Map.empty, limitations = Map.empty\<rparr>;
          (err, cb') =
             (case rd of
                Inl e \<Rightarrow> (Some (''read S3 circuit breaker config: '' @ e), cb)
              | Inr content \<Rightarrow> LoadS3ApiConfigurationFromBytes parse content cb)
      in cb')"

section \<open>The counters\<close>

text \<open>
  \<open>counter.Load()\<close>, \<open>counter.Add(inc)\<close> and \<open>counter.Sub(inc)\<close> on the counter of a
  key. They are only applied to a counter that is installed in the store.
\<close>

definition counter_Load :: "CircuitBreaker \<Rightarrow> string \<Rightarrow> int64" where
  "counter_Load cb key = (case counters cb key of None \<Rightarrow> 0 | Some v \<Rightarrow> v)"

definition counter_Add :: "string \<Rightarrow> int64 \<Rightarrow> CircuitBreaker \<Rightarrow> CircuitBreaker" where
  "counter_Add key inc cb = cb\<lparr>counters := (counters cb)(key \<mapsto> counter_Load cb key + inc)\<rparr>"

definition counter_Sub :: "string \<Rightarrow> int64 \<Rightarrow> CircuitBreaker \<Rightarrow> CircuitBreaker" where
  "counter_Sub key inc cb = cb\<lparr>counters := (counters cb)(key \<mapsto> counter_Load cb key - inc)\<rparr>"

text \<open>
  A release action \<open>func() { counter.Sub(inc) }\<close> is the pair of the counter's key and
  the captured \<open>inc\<close>. The deferred loop of \<open>Limit\<close> runs the collected actions in
  the order of the slice.
\<close>

type_synonym rollback = "string \<times> int64"

definition run_rollback :: "rollback list \<Rightarrow> CircuitBreaker \<Rightarrow> CircuitBreaker" where
  "run_rollback rollback cb = fold (\<lambda>(key, inc) cb'. counter_Sub key inc cb') rollback cb"

section \<open>The admission gate\<close>

text \<open>
  Other requests run the gate at the same time and add to or subtract from the same
  atomic counter. What they do to the counter of one check is the pair \<open>(d1, d2)\<close>:
  their net change between this check's first \<open>Load\<close> and its \<open>Add\<close>, and between its
  \<open>Add\<close> and its second \<open>Load\<close>. \<open>(0, 0)\<close> is a check that runs undisturbed.
\<close>

type_synonym interference = "int64 \<times> int64"

definition loadCounterAndCompare ::
  "CircuitBreaker \<Rightarrow> string \<Rightarrow> string \<Rightarrow> string \<Rightarrow> int64 \<Rightarrow> ErrorCode \<Rightarrow> interference
     \<Rightarrow> CircuitBreaker \<times> rollback option \<times> ErrorCode" where
  "loadCounterAndCompare cb bucket action limitType inc errCode env =
     (let key = Concat [bucket, action, limitType] in
      case limitations cb key of
        None \<Rightarrow> (cb, None, ErrNone)
      | Some max' \<Rightarrow>
          (let cb1 = (case counters cb key of
                        None \<Rightarrow> cb\<lparr>counters := (counters cb)(key \<mapsto> 0)\<rparr>
                      | Some _ \<Rightarrow> cb);
               current = counter_Load cb1 key
           in if max' <s current + inc then (cb1, None, errCode)
              else
                (let cb2 = counter_Add key inc (counter_Add key (fst env) cb1);
                     f = Some (key, inc);
                     cb3 = counter_Add key (snd env) cb2;
                     current' = counter_Load cb3 key
                 in if max' <s current' then (cb3, f, errCode)
                    else (cb3, f, ErrNone))))"

text \<open>\<open>append\<close> of a release action that is not \<open>nil\<close>.\<close>

definition append_rollback :: "rollback list \<Rightarrow> rollback option \<Rightarrow> rollback list" where
  "append_rollback rollback f = (case f of None \<Rightarrow> rollback | Some g \<Rightarrow> rollback @ [g])"

definition limit ::
  "CircuitBreaker \<Rightarrow> Request \<Rightarrow> string \<Rightarrow> string
     \<Rightarrow> interference \<times> interference \<times> interference \<times> interference
     \<Rightarrow> CircuitBreaker \<times> rollback list \<times> ErrorCode" where
  "limit cb r bucket action env =
     (case env of (e1, e2, e3, e4) \<Rightarrow>
      (case loadCounterAndCompare cb bucket action LimitTypeCount 1 ErrTooManyRequest e1 of
         (cb1, bucketCountRollBack, errCode1) \<Rightarrow>
      let rollback1 = append_rollback [] bucketCountRollBack in
      if errCode1 \<noteq> ErrNone then (cb1, rollback1, errCode1)
      else
      (case loadCounterAndCompare cb1 bucket action LimitTypeBytes (ContentLength r)
              ErrRequestBytesExceed e2 of
         (cb2, bucketContentLengthRollBack, errCode2) \<Rightarrow>
      let rollback2 = append_rollback rollback1 bucketContentLengthRollBack in
      if errCode2 \<noteq> ErrNone then (cb2, rollback2, errCode2)
      else
      (case loadCounterAndCompare cb2 [] action LimitTypeCount 1 ErrTooManyRequest e3 of
         (cb3, globalCountRollBack, errCode3) \<Rightarrow>
      let rollback3 = append_rollback rollback2 globalCountRollBack in
      if errCode3 \<noteq> ErrNone then (cb3, rollback3, errCode3)
      else
      (case loadCounterAndCompare cb3 [] action LimitTypeBytes (ContentLength r)
              ErrRequestBytesExceed e4 of
         (cb4, globalContentLengthRollBack, errCode4) \<Rightarrow>
      let rollback4 = append_rollback rollback3 globalContentLengthRollBack in
      (cb4, rollback4, errCode4))))))"

text \<open>
  The handler that \<open>Limit\<close> returns. The wrapped handler \<open>f\<close> and
  \<open>s3err.WriteErrorResponse\<close> act on the world \<open>'w\<close> outside the circuit breaker (the
  response writer and whatever the handler serves from). \<open>vars["bucket"]\<close> of a
  request without that variable is the empty string.
\<close>

definition Limit ::
  "(Request \<Rightarrow> 'w \<Rightarrow> 'w) \<Rightarrow> (Request \<Rightarrow> ErrorCode \<Rightarrow> 'w \<Rightarrow> 'w) \<Rightarrow> string
     \<Rightarrow> interference \<times> interference \<times> interference \<times> interference
     \<Rightarrow> Request \<Rightarrow> CircuitBreaker \<times> 'w \<Rightarrow> CircuitBreaker \<times> 'w" where
  "Limit f WriteErrorResponse action env r s =
     (case s of (cb, w) \<Rightarrow>
      if \<not> Enabled cb then (cb, f r w)
      else
        (let vars = Vars r;
             bucket = (case vars ''bucket'' of None \<Rightarrow> [] | Some b \<Rightarrow> b)
         in case limit cb r bucket action env of
              (cb', rollback, errCode) \<Rightarrow>
                (let w' = (if errCode = ErrNone then f r w
                           else WriteErrorResponse r errCode w)
                 in (run_rollback rollback cb', w'))))"

section \<open>The gate as the specification words it\<close>

text \<open>
  A check of the specification: its scope (a bucket name, or the empty name for the
  global scope), its metric kind, its increment and the error code of its rejection.
  \<open>gate_checks\<close> lists the four checks of a request in the order of the specification.
\<close>

type_synonym check = "string \<times> string \<times> int64 \<times> ErrorCode"

definition gate_checks :: "Request \<Rightarrow> string \<Rightarrow> check list" where
  "gate_checks r bucket =
     [(bucket, LimitTypeCount, 1, ErrTooManyRequest),
      (bucket, LimitTypeBytes, ContentLength r, ErrRequestBytesExceed),
      ([], LimitTypeCount, 1, ErrTooManyRequest),
      ([], LimitTypeBytes, ContentLength r, ErrRequestBytesExceed)]"

text \<open>
  Evaluating a list of checks in order, stopping at the first rejection and
  collecting the release actions of the checks that incremented.
\<close>

fun run_checks ::
  "CircuitBreaker \<Rightarrow> string \<Rightarrow> (check \<times> interference) list
     \<Rightarrow> CircuitBreaker \<times> rollback list \<times> ErrorCode" where
  "run_checks cb action [] = (cb, [], ErrNone)"
| "run_checks cb action (((scope, limitType, inc, errCode), env) # cs) =
     (case loadCounterAndCompare cb scope action limitType inc errCode env of
        (cb1, f, e) \<Rightarrow>
          if e \<noteq> ErrNone then (cb1, append_rollback [] f, e)
          else (case run_checks cb1 action cs of
                  (cb2, fs, e2) \<Rightarrow> (cb2, append_rollback [] f @ fs, e2)))"

text \<open>A gate that no other request disturbs.\<close>

definition quiet :: "interference \<times> interference \<times> interference \<times> interference" where
  "quiet = ((0, 0), (0, 0), (0, 0), (0, 0))"

section \<open>Auxiliary notions\<close>

text \<open>
  The keys that the bucket loop of the loader writes for the entries of a buckets
  section, enabled or not, and the keys that all entries of a configuration stand for:
  the global entries under their own key, the bucket entries under
  \<open>Concat(bucket, action)\<close>.
\<close>

definition bucket_keys :: "(string \<times> S3CircuitBreakerOptions) list \<Rightarrow> string list" where
  "bucket_keys bs =
     concat (map (\<lambda>(bucket, cbOptions). map (\<lambda>(action, limit). Concat [bucket, action]) (Actions cbOptions)) bs)"

definition config_keys :: "S3CircuitBreakerConfig \<Rightarrow> string list" where
  "config_keys cfg =
     (case Global cfg of None \<Rightarrow> [] | Some g \<Rightarrow> map fst (Actions g)) @ bucket_keys (Buckets cfg)"

text \<open>
  What a list of collected release actions holds of the counter \<open>k\<close>: the sum of the
  increments that the actions for \<open>k\<close> take back.
\<close>

definition held :: "rollback list \<Rightarrow> string \<Rightarrow> int64" where
  "held rollback k = sum_list (map snd (filter (\<lambda>x. fst x = k) rollback))"

text \<open>
  What the other requests added to the counter \<open>k\<close> while the checks of a list ran:
  the interference of every check on \<open>k\<close> that went on to increment.
\<close>

fun env_added :: "CircuitBreaker \<Rightarrow> string \<Rightarrow> (check \<times> interference) list \<Rightarrow> string \<Rightarrow> int64" where
  "env_added cb action [] k = 0"
| "env_added cb action (((scope, limitType, inc, errCode), env) # cs) k =
     (case loadCounterAndCompare cb scope action limitType inc errCode env of
        (cb1, f, e) \<Rightarrow>
          (if f \<noteq> None \<and> k = Concat [scope, action, limitType] then fst env + snd env else 0) +
          (if e \<noteq> ErrNone then 0 else env_added cb1 action cs k))"

text \<open>Serving a list of requests one after the other, each to its completion.\<close>

definition serve_all ::
  "(Request \<Rightarrow> 'w \<Rightarrow> 'w) \<Rightarrow> (Request \<Rightarrow> ErrorCode \<Rightarrow> 'w \<Rightarrow> 'w) \<Rightarrow> (string \<times> Request) list
     \<Rightarrow> CircuitBreaker \<times> 'w \<Rightarrow> CircuitBreaker \<times> 'w" where
  "serve_all f WriteErrorResponse reqs s =
     fold (\<lambda>(action, r) s'. Limit f WriteErrorResponse action quiet r s') reqs s"

text \<open>
  Requests that overlap. An event is a request that enters the handler of \<open>Limit\<close> and
  runs the gate, a request in flight that completes, so that its deferred release
  actions run, or a reload of the configuration. The state is the circuit breaker and
  the release actions of the requests that have entered and not completed; a rejected
  request is in flight from its gate to its deferred release.
\<close>

datatype event = Begin string Request | Finish nat | Reload S3CircuitBreakerConfig

fun step :: "event \<Rightarrow> CircuitBreaker \<times> rollback list list \<Rightarrow> CircuitBreaker \<times> rollback list list" where
  "step (Begin action r) (cb, inflight) =
     (if \<not> Enabled cb then (cb, inflight @ [[]])
      else (case limit cb r (case Vars r ''bucket'' of None \<Rightarrow> [] | Some b \<Rightarrow> b) action quiet of
              (cb', rollback, errCode) \<Rightarrow> (cb', inflight @ [rollback])))"
| "step (Finish i) (cb, inflight) =
     (if i < length inflight
      then (run_rollback (inflight ! i) cb, take i inflight @ drop (Suc i) inflight)
      else (cb, inflight))"
| "step (Reload cfg) (cb, inflight) = (snd (loadCircuitBreakerConfig cfg cb), inflight)"

definition run_events :: "event list \<Rightarrow> CircuitBreaker \<times> rollback list list \<Rightarrow> CircuitBreaker \<times> rollback list list" where
  "run_events evs s = fold step evs s"

text \<open>What the requests in flight hold of the counter \<open>k\<close>.\<close>

definition inflight_held :: "rollback list list \<Rightarrow> string \<Rightarrow> int64" where
  "inflight_held inflight k = sum_list (map (\<lambda>rollback. held rollback k) inflight)"

text \<open>A configuration with nothing but an enabled global section of one entry.\<close>

definition global_only :: "string \<Rightarrow> int64 \<Rightarrow> S3CircuitBreakerConfig" where
  "global_only k n =
     \<lparr>Global = Some \<lparr>opt_Enabled = True, Actions = [(k, n)]\<rparr>, Buckets = []\<rparr>"

section \<open>Example runs\<close>

text \<open>
  A configuration with a limit of 10 bytes in flight for writes to the bucket \<open>b\<close>,
  and the states of a run on it. Two requests of unknown length (\<open>ContentLength\<close> is
  \<open>-1\<close>) pass the gate one after the other; a request of 12 bytes passes the gate
  while both are in flight; then the two requests of unknown length complete and their
  release actions run.
\<close>

definition bytes_limit_config :: S3CircuitBreakerConfig where
  "bytes_limit_config =
     \<lparr>Global = Some \<lparr>opt_Enabled = True, Actions = [(''Write:count'', 100)]\<rparr>,
      Buckets = [(''b'', \<lparr>opt_Enabled = True, Actions = [(''Write:bytes'', 10)]\<rparr>)]\<rparr>"

definition request_of_length :: "int64 \<Rightarrow> Request" where
  "request_of_length n = \<lparr>ContentLength = n, Vars = [''bucket'' \<mapsto> ''b'']\<rparr>"

definition cb_loaded :: CircuitBreaker where
  "cb_loaded = snd (loadCircuitBreakerConfig bytes_limit_config
                  \<lparr>Enabled = False, counters = Map.empty, limitations = Map.empty\<rparr>)"

definition cb_one_unknown :: CircuitBreaker where
  "cb_one_unknown = fst (limit cb_loaded (request_of_length (- 1)) ''b'' ''Write'' quiet)"

definition cb_two_unknown :: CircuitBreaker where
  "cb_two_unknown = fst (limit cb_one_unknown (request_of_length (- 1)) ''b'' ''Write'' quiet)"

definition cb_upload_admitted :: CircuitBreaker where
  "cb_upload_admitted = fst (limit cb_two_unknown (request_of_length 12) ''b'' ''Write'' quiet)"

definition cb_unknown_released :: CircuitBreaker where
  "cb_unknown_released =
     run_rollback (fst (snd (limit cb_one_unknown (request_of_length (- 1)) ''b'' ''Write'' quiet)))
       (run_rollback (fst (snd (limit cb_loaded (request_of_length (- 1)) ''b'' ''Write'' quiet)))
          cb_upload_admitted)"

text \<open>
  A second run on the same configuration: a request of one byte passes the gate, and
  while it is in flight a request that declares the largest content length an \<open>int64\<close>
  holds, \<open>2^63 - 1\<close>, passes the gate as well.
\<close>

definition cb_one_byte :: CircuitBreaker where
  "cb_one_byte = fst (limit cb_loaded (request_of_length 1) ''b'' ''Write'' quiet)"

definition cb_huge_admitted :: CircuitBreaker where
  "cb_huge_admitted =
     fst (limit cb_one_byte (request_of_length 9223372036854775807) ''b'' ''Write'' quiet)"

text \<open>A configuration without global section, with an enabled and a disabled bucket.\<close>

definition two_buckets :: S3CircuitBreakerConfig where
  "two_buckets =
     \<lparr>Global = None,
      Buckets = [(''b1'', \<lparr>opt_Enabled = True, Actions = [(''Write:count'', 3)]\<rparr>),
                 (''b2'', \<lparr>opt_Enabled = False, Actions = [(''Write:count'', 4)]\<rparr>)]\<rparr>"

section \<open>Basic facts about the counters\<close>

lemma counter_Load_Add [simp]:
  "counter_Load (counter_Add key d cb) k =
     (if k = key then counter_Load cb key + d else counter_Load cb k)"
  by (simp add: counter_Load_def counter_Add_def)

lemma counter_Load_Sub [simp]:
  "counter_Load (counter_Sub key d cb) k =
     (if k = key then counter_Load cb key - d else counter_Load cb k)"
  by (simp add: counter_Load_def counter_Sub_def)

lemma append_rollback_Nil: "append_rollback xs f = xs @ append_rollback [] f"
  by (simp add: append_rollback_def split: option.split)

section \<open>Facts about keys\<close>

lemma length_Concat3: "length (Concat [a, b, c]) = length a + length b + length c + 2"
  by (simp add: Separator_def)

lemma length_Concat2: "length (Concat [a, b]) = length a + length b + 1"
  by (simp add: Separator_def)

lemma length_LimitType: "length LimitTypeCount = 5" "length LimitTypeBytes = 5"
  by (simp_all add: LimitTypeCount_def LimitTypeBytes_def)

lemma gate_key_neq_action:
  "Concat [bucket, action, limitType] \<noteq> action"
proof
  assume "Concat [bucket, action, limitType] = action"
  then have "length (Concat [bucket, action, limitType]) = length action"
    by (rule arg_cong)
  then show False by (simp only: length_Concat3)
qed

lemma gate_key_neq_config_key:
  assumes "length limitType = length limitType'"
  shows "Concat [bucket, action, limitType] \<noteq> Concat [action, limitType']"
proof
  assume "Concat [bucket, action, limitType] = Concat [action, limitType']"
  then have "length (Concat [bucket, action, limitType]) = length (Concat [action, limitType'])"
    by (rule arg_cong)
  with assms show False by (simp only: length_Concat3 length_Concat2)
qed

lemma no_limit_passes:
  "limitations cb (Concat [bucket, action, limitType]) = None \<Longrightarrow>
   loadCounterAndCompare cb bucket action limitType inc errCode env = (cb, None, ErrNone)"
  by (simp add: loadCounterAndCompare_def)

section \<open>Facts about the loops of the loader\<close>

lemma copy_bucket_actions_Nil [simp]: "copy_bucket_actions b [] m = m"
  by (simp add: copy_bucket_actions_def)

lemma copy_bucket_actions_Cons [simp]:
  "copy_bucket_actions b ((a, l) # acts) m = copy_bucket_actions b acts (m(Concat [b, a] \<mapsto> l))"
  by (simp add: copy_bucket_actions_def)

lemma copy_buckets_Nil [simp]: "copy_buckets [] m = m"
  by (simp add: copy_buckets_def)

lemma copy_buckets_Cons [simp]:
  "copy_buckets ((b, opts) # bs) m =
     copy_buckets bs (if opt_Enabled opts then copy_bucket_actions b (Actions opts) m else m)"
  by (simp add: copy_buckets_def)

lemma copy_bucket_actions_other:
  "k \<notin> (\<lambda>(a, l). Concat [b, a]) ` set acts \<Longrightarrow> copy_bucket_actions b acts m k = m k"
  by (induction acts arbitrary: m) (auto simp del: Concat.simps)

lemma copy_bucket_actions_dom:
  "dom (copy_bucket_actions b acts m) = dom m \<union> (\<lambda>(a, l). Concat [b, a]) ` set acts"
proof (induction acts arbitrary: m)
  case Nil
  then show ?case by simp
next
  case (Cons x acts)
  obtain a l where x: "x = (a, l)" by (cases x)
  have "dom (copy_bucket_actions b acts (m(Concat [b, a] \<mapsto> l))) =
        dom (m(Concat [b, a] \<mapsto> l)) \<union> (\<lambda>(a, l). Concat [b, a]) ` set acts"
    by (rule Cons.IH)
  then show ?case by (simp add: x del: Concat.simps)
qed

lemma bucket_key_in_image:
  "(a, l) \<in> set acts \<Longrightarrow> Concat [b, a] \<in> (\<lambda>(a, l). Concat [b, a]) ` set acts"
  by (rule image_eqI [where x = "(a, l)"]) simp_all

lemma copy_bucket_actions_value:
  "distinct (map (\<lambda>(a, l). Concat [b, a]) acts) \<Longrightarrow> (a, l) \<in> set acts \<Longrightarrow>
   copy_bucket_actions b acts m (Concat [b, a]) = Some l"
proof (induction acts arbitrary: m)
  case Nil
  then show ?case by simp
next
  case (Cons x acts)
  obtain a' l' where x: "x = (a', l')" by (cases x)
  show ?case
  proof (cases "(a, l) \<in> set acts")
    case True
    with Cons show ?thesis by (simp add: x del: Concat.simps)
  next
    case False
    with Cons.prems have eq: "a' = a" "l' = l" by (auto simp: x)
    from Cons.prems(1) have "Concat [b, a] \<notin> (\<lambda>(a, l). Concat [b, a]) ` set acts"
      by (simp add: x eq del: Concat.simps)
    then show ?thesis
      by (simp add: x eq copy_bucket_actions_other del: Concat.simps)
  qed
qed

lemma copy_buckets_other:
  "k \<notin> set (bucket_keys bs) \<Longrightarrow> copy_buckets bs m k = m k"
proof (induction bs arbitrary: m)
  case Nil
  then show ?case by simp
next
  case (Cons x bs)
  obtain b opts where x: "x = (b, opts)" by (cases x)
  from Cons.prems have k1: "k \<notin> (\<lambda>(a, l). Concat [b, a]) ` set (Actions opts)"
    and k2: "k \<notin> set (bucket_keys bs)"
    by (auto simp: bucket_keys_def x simp del: Concat.simps)
  show ?case
    by (simp add: x Cons.IH [OF k2] copy_bucket_actions_other [OF k1])
qed

lemma copy_buckets_dom_mono: "dom m \<subseteq> dom (copy_buckets bs m)"
proof (induction bs arbitrary: m)
  case Nil
  then show ?case by simp
next
  case (Cons x bs)
  obtain b opts where x: "x = (b, opts)" by (cases x)
  have "dom m \<subseteq> dom (if opt_Enabled opts then copy_bucket_actions b (Actions opts) m else m)"
    by (auto simp: copy_bucket_actions_dom)
  also have "\<dots> \<subseteq> dom (copy_buckets (x # bs) m)"
    unfolding x copy_buckets_Cons by (rule Cons.IH)
  finally show ?case .
qed

lemma copy_buckets_enabled_dom:
  "(b, opts) \<in> set bs \<Longrightarrow> opt_Enabled opts \<Longrightarrow> (a, l) \<in> set (Actions opts) \<Longrightarrow>
   Concat [b, a] \<in> dom (copy_buckets bs m)"
proof (induction bs arbitrary: m)
  case Nil
  then show ?case by simp
next
  case (Cons x bs)
  show ?case
  proof (cases "x = (b, opts)")
    case True
    from bucket_key_in_image [OF Cons.prems(3)]
    have "Concat [b, a] \<in> dom (copy_bucket_actions b (Actions opts) m)"
      unfolding copy_bucket_actions_dom by (rule UnI2)
    with copy_buckets_dom_mono [of "copy_bucket_actions b (Actions opts) m" bs] Cons.prems
    show ?thesis by (auto simp: True simp del: Concat.simps)
  next
    case False
    obtain b' opts' where x: "x = (b', opts')" by (cases x)
    from False Cons.prems have "(b, opts) \<in> set bs" by simp
    from Cons.IH [OF this Cons.prems(2,3)] show ?thesis
      unfolding x copy_buckets_Cons .
  qed
qed

lemma copy_buckets_disabled_removed:
  "\<not> opt_Enabled opts \<Longrightarrow>
   copy_buckets (filter (\<lambda>x. x \<noteq> (b, opts)) bs) m = copy_buckets bs m"
proof (induction bs arbitrary: m)
  case Nil
  then show ?case by simp
next
  case (Cons x bs)
  obtain b' opts' where x: "x = (b', opts')" by (cases x)
  from Cons show ?case by (auto simp: x)
qed

lemma copy_buckets_value:
  "distinct (bucket_keys bs) \<Longrightarrow> (b, opts) \<in> set bs \<Longrightarrow> (a, l) \<in> set (Actions opts) \<Longrightarrow>
   copy_buckets bs m (Concat [b, a]) = (if opt_Enabled opts then Some l else m (Concat [b, a]))"
proof (induction bs arbitrary: m)
  case Nil
  then show ?case by simp
next
  case (Cons x bs)
  obtain b' opts' where x: "x = (b', opts')" by (cases x)
  let ?k = "Concat [b, a]"
  let ?hd = "map (\<lambda>(action, limit). Concat [b', action]) (Actions opts')"
  let ?m = "if opt_Enabled opts' then copy_bucket_actions b' (Actions opts') m else m"
  from Cons.prems(1) have dhd: "distinct ?hd" and dtl: "distinct (bucket_keys bs)"
    and disj: "set ?hd \<inter> set (bucket_keys bs) = {}"
    by (simp_all add: bucket_keys_def x del: Concat.simps)
  have in_tl: "?k \<in> set (bucket_keys bs)" if "(b, opts) \<in> set bs"
    using that bucket_key_in_image [OF Cons.prems(3), of b]
    by (force simp: bucket_keys_def simp del: Concat.simps)
  show ?case
  proof (cases "?k \<in> set ?hd")
    case True
    with disj have notin: "?k \<notin> set (bucket_keys bs)" by blast
    with in_tl Cons.prems(2) have eq: "b' = b" "opts' = opts" by (auto simp: x)
    have "copy_buckets (x # bs) m ?k = ?m ?k"
      unfolding x copy_buckets_Cons by (rule copy_buckets_other [OF notin])
    also have "\<dots> = (if opt_Enabled opts then Some l else m ?k)"
      using copy_bucket_actions_value [OF dhd [unfolded eq] Cons.prems(3), of m]
      by (simp add: eq del: Concat.simps)
    finally show ?thesis .
  next
    case False
    with bucket_key_in_image [OF Cons.prems(3), of b] have "(b, opts) \<noteq> (b', opts')"
      by (auto simp del: Concat.simps)
    with Cons.prems(2) have mem: "(b, opts) \<in> set bs" by (auto simp: x)
    from False have "?k \<notin> (\<lambda>(a, l). Concat [b', a]) ` set (Actions opts')"
      by (simp del: Concat.simps)
    then have same: "?m ?k = m ?k"
      by (simp add: copy_bucket_actions_other del: Concat.simps)
    have "copy_buckets (x # bs) m ?k = copy_buckets bs ?m ?k"
      unfolding x copy_buckets_Cons ..
    also have "\<dots> = (if opt_Enabled opts then Some l else ?m ?k)"
      by (rule Cons.IH [OF dtl mem Cons.prems(3)])
    finally show ?thesis by (simp only: same)
  qed
qed

section \<open>Accounting of the increments\<close>

lemma held_Nil [simp]: "held [] k = 0"
  by (simp add: held_def)

lemma held_Cons [simp]: "held ((key, inc) # rb) k = (if key = k then inc else 0) + held rb k"
  by (simp add: held_def)

lemma held_append [simp]: "held (xs @ ys) k = held xs k + held ys k"
  by (simp add: held_def)

lemma held_append_rollback:
  "held (append_rollback [] f) k = (case f of None \<Rightarrow> 0 | Some (key, inc) \<Rightarrow> if key = k then inc else 0)"
  by (simp add: append_rollback_def split: option.split prod.split)

lemma run_rollback_Nil [simp]: "run_rollback [] cb = cb"
  by (simp add: run_rollback_def)

lemma run_rollback_Cons [simp]:
  "run_rollback ((key, inc) # rb) cb = run_rollback rb (counter_Sub key inc cb)"
  by (simp add: run_rollback_def)

lemma run_rollback_Load:
  "counter_Load (run_rollback rb cb) k = counter_Load cb k - held rb k"
proof (induction rb arbitrary: cb)
  case Nil
  then show ?case by simp
next
  case (Cons x rb)
  obtain key inc where x: "x = (key, inc)" by (cases x)
  show ?case by (simp add: x Cons.IH)
qed

lemma run_rollback_frame:
  "Enabled (run_rollback rb cb) = Enabled cb \<and> limitations (run_rollback rb cb) = limitations cb \<and>
   dom (counters cb) \<subseteq> dom (counters (run_rollback rb cb))"
proof (induction rb arbitrary: cb)
  case Nil
  then show ?case by simp
next
  case (Cons x rb)
  obtain key inc where x: "x = (key, inc)" by (cases x)
  have sub: "dom (counters cb) \<subseteq> dom (counters (counter_Sub key inc cb))"
    and fr: "Enabled (counter_Sub key inc cb) = Enabled cb"
      "limitations (counter_Sub key inc cb) = limitations cb"
    by (auto simp: counter_Sub_def)
  from Cons.IH [of "counter_Sub key inc cb"] sub
  have "dom (counters cb) \<subseteq> dom (counters (run_rollback rb (counter_Sub key inc cb)))"
    by (blast intro: subset_trans)
  with Cons.IH [of "counter_Sub key inc cb"] fr show ?case
    by (simp add: x)
qed

lemma check_Load:
  assumes "loadCounterAndCompare cb scope action limitType inc errCode env = (cb', f, e)"
  shows "counter_Load cb' k =
           counter_Load cb k + held (append_rollback [] f) k +
           (if f \<noteq> None \<and> k = Concat [scope, action, limitType] then fst env + snd env else 0)"
  using assms
  by (auto simp add: loadCounterAndCompare_def Let_def counter_Load_def counter_Add_def
      append_rollback_def split: option.splits if_splits simp del: Concat.simps)

lemma check_code:
  "snd (snd (loadCounterAndCompare cb scope action limitType inc errCode env))
     \<in> {ErrNone, errCode}"
  by (simp add: loadCounterAndCompare_def Let_def split: option.split)

lemma check_frame:
  assumes "loadCounterAndCompare cb scope action limitType inc errCode env = (cb', f, e)"
  shows "Enabled cb' = Enabled cb \<and> limitations cb' = limitations cb \<and>
         dom (counters cb) \<subseteq> dom (counters cb')"
  using assms
  by (auto simp add: loadCounterAndCompare_def Let_def counter_Add_def
      split: option.splits if_splits simp del: Concat.simps)

lemma run_checks_Load:
  "run_checks cb action cs = (cb', rb, e) \<Longrightarrow>
   counter_Load cb' k = counter_Load cb k + held rb k + env_added cb action cs k"
proof (induction cb action cs arbitrary: cb' rb e rule: run_checks.induct)
  case (1 cb action)
  then show ?case by simp
next
  case (2 cb action scope limitType inc errCode env cs)
  obtain cb1 f e1 where c: "loadCounterAndCompare cb scope action limitType inc errCode env = (cb1, f, e1)"
    by (cases "loadCounterAndCompare cb scope action limitType inc errCode env")
  note L = check_Load [OF c, of k]
  show ?case
  proof (cases "e1 = ErrNone")
    case False
    with "2.prems" c L show ?thesis by (auto simp del: Concat.simps)
  next
    case True
    obtain cb2 fs e2 where r: "run_checks cb1 action cs = (cb2, fs, e2)"
      by (cases "run_checks cb1 action cs")
    from True have ok: "\<not> e1 \<noteq> ErrNone" by simp
    from "2.IH" [OF c [symmetric] refl ok r]
    have "counter_Load cb2 k = counter_Load cb1 k + held fs k + env_added cb1 action cs k"
      by simp
    with "2.prems" c r L True show ?thesis by (auto simp del: Concat.simps)
  qed
qed

lemma run_checks_frame:
  "run_checks cb action cs = (cb', rb, e) \<Longrightarrow>
   Enabled cb' = Enabled cb \<and> limitations cb' = limitations cb \<and>
   dom (counters cb) \<subseteq> dom (counters cb')"
proof (induction cb action cs arbitrary: cb' rb e rule: run_checks.induct)
  case (1 cb action)
  then show ?case by simp
next
  case (2 cb action scope limitType inc errCode env cs)
  obtain cb1 f e1 where c: "loadCounterAndCompare cb scope action limitType inc errCode env = (cb1, f, e1)"
    by (cases "loadCounterAndCompare cb scope action limitType inc errCode env")
  note F = check_frame [OF c]
  show ?case
  proof (cases "e1 = ErrNone")
    case False
    with "2.prems" c F show ?thesis by (auto simp del: Concat.simps)
  next
    case True
    obtain cb2 fs e2 where r: "run_checks cb1 action cs = (cb2, fs, e2)"
      by (cases "run_checks cb1 action cs")
    from True have ok: "\<not> e1 \<noteq> ErrNone" by simp
    from "2.IH" [OF c [symmetric] refl ok r]
    have "Enabled cb2 = Enabled cb1 \<and> limitations cb2 = limitations cb1 \<and>
          dom (counters cb1) \<subseteq> dom (counters cb2)"
      by simp
    with "2.prems" c r F True show ?thesis by (auto simp del: Concat.simps)
  qed
qed

section \<open>Facts about a table with one global entry\<close>

lemma load_global_only:
  "loadCircuitBreakerConfig (global_only k n) cb =
     (None, cb\<lparr>Enabled := True, limitations := [k \<mapsto> n]\<rparr>)"
  by (simp add: global_only_def loadCircuitBreakerConfig_def copy_global_actions_def)

lemma single_limit_gate_passes:
  assumes "\<And>b t. length t = 5 \<Longrightarrow> Concat [b, action, t] \<noteq> k"
  shows "limit (cb\<lparr>Enabled := True, limitations := [k \<mapsto> n]\<rparr>) r bucket action env =
           (cb\<lparr>Enabled := True, limitations := [k \<mapsto> n]\<rparr>, [], ErrNone)"
proof -
  let ?cb = "cb\<lparr>Enabled := True, limitations := [k \<mapsto> n]\<rparr>"
  have pass: "loadCounterAndCompare ?cb b action t inc errCode e' = (?cb, None, ErrNone)"
    if "length t = 5" for b t inc errCode e'
    using assms [OF that, of b] by (intro no_limit_passes) (simp del: Concat.simps)
  show ?thesis
    by (cases env) (simp add: limit_def pass length_LimitType append_rollback_def del: Concat.simps)
qed

section \<open>Facts about the loaded table\<close>

lemma copy_global_actions_other:
  "k \<notin> fst ` set acts \<Longrightarrow> copy_global_actions acts m k = m k"
  unfolding copy_global_actions_def
  by (induction acts arbitrary: m) auto

lemma load_limitations:
  "limitations (snd (loadCircuitBreakerConfig cfg cb)) =
     copy_buckets (Buckets cfg)
       (case Global cfg of
          None \<Rightarrow> Map.empty
        | Some g \<Rightarrow> if opt_Enabled g \<and> Actions g \<noteq> []
                    then copy_global_actions (Actions g) Map.empty else Map.empty)"
  by (simp add: loadCircuitBreakerConfig_def Let_def split: option.split)

lemma global_part_other:
  "k \<notin> set (case Global cfg of None \<Rightarrow> [] | Some g \<Rightarrow> map fst (Actions g)) \<Longrightarrow>
   (case Global cfg of
      None \<Rightarrow> Map.empty
    | Some g \<Rightarrow> if opt_Enabled g \<and> Actions g \<noteq> []
                then copy_global_actions (Actions g) Map.empty else Map.empty) k = None"
  by (auto simp: copy_global_actions_other split: option.split)

section \<open>The gate and its release\<close>

lemma limit_run_checks:
  "limit cb r bucket action (e1, e2, e3, e4) =
     run_checks cb action (zip (gate_checks r bucket) [e1, e2, e3, e4])"
  by (simp add: limit_def gate_checks_def Let_def append_rollback_Nil [of "_ @ _"]
      append_rollback_Nil [of "append_rollback [] _"] split: prod.split)

lemma env_added_quiet:
  "\<forall>e \<in> snd ` set cs. e = (0, 0) \<Longrightarrow> env_added cb action cs k = 0"
proof (induction cb action cs k rule: env_added.induct)
  case (1 cb action k)
  then show ?case by simp
next
  case (2 cb action scope limitType inc errCode env cs k)
  obtain cb1 f e1 where c: "loadCounterAndCompare cb scope action limitType inc errCode env = (cb1, f, e1)"
    by (cases "loadCounterAndCompare cb scope action limitType inc errCode env")
  from "2.prems" have env: "env = (0, 0)" and rest: "\<forall>e \<in> snd ` set cs. e = (0, 0)"
    by auto
  show ?case
  proof (cases "e1 = ErrNone")
    case True
    then have ok: "\<not> e1 \<noteq> ErrNone" by simp
    from "2.IH" [OF c [symmetric] refl ok rest] c env True show ?thesis
      by (simp del: Concat.simps)
  next
    case False
    with c env show ?thesis by (simp del: Concat.simps)
  qed
qed

lemma gate_release_Load:
  assumes "limit cb r bucket action (e1, e2, e3, e4) = (cb1, rb, e)"
  shows "counter_Load (run_rollback rb cb1) k =
           counter_Load cb k + env_added cb action (zip (gate_checks r bucket) [e1, e2, e3, e4]) k"
  using run_checks_Load [OF assms [unfolded limit_run_checks], of k]
  by (simp add: run_rollback_Load)

lemma gate_release_frame:
  assumes "limit cb r bucket action (e1, e2, e3, e4) = (cb1, rb, e)"
  shows "Enabled (run_rollback rb cb1) = Enabled cb \<and>
         limitations (run_rollback rb cb1) = limitations cb \<and>
         dom (counters cb) \<subseteq> dom (counters (run_rollback rb cb1))"
  using run_checks_frame [OF assms [unfolded limit_run_checks]] run_rollback_frame [of rb cb1]
  by auto

lemma Limit_quiet_Load:
  "counter_Load (fst (Limit f W action quiet r (cb, w))) k = counter_Load cb k"
proof (cases "Enabled cb")
  case False
  then show ?thesis by (simp add: Limit_def)
next
  case True
  let ?bucket = "case Vars r ''bucket'' of None \<Rightarrow> [] | Some b \<Rightarrow> b"
  obtain cb1 rb e where g: "limit cb r ?bucket action ((0,0),(0,0),(0,0),(0,0)) = (cb1, rb, e)"
    by (cases "limit cb r ?bucket action ((0,0),(0,0),(0,0),(0,0))")
  have "env_added cb action (zip (gate_checks r ?bucket) [(0,0),(0,0),(0,0),(0,0)]) k = 0"
    by (rule env_added_quiet) (simp add: gate_checks_def)
  with gate_release_Load [OF g, of k] True g show ?thesis
    by (simp add: Limit_def quiet_def Let_def)
qed

lemma Limit_quiet_frame:
  "Enabled (fst (Limit f W action quiet r (cb, w))) = Enabled cb \<and>
   limitations (fst (Limit f W action quiet r (cb, w))) = limitations cb \<and>
   dom (counters cb) \<subseteq> dom (counters (fst (Limit f W action quiet r (cb, w))))"
proof (cases "Enabled cb")
  case False
  then show ?thesis by (simp add: Limit_def)
next
  case True
  let ?bucket = "case Vars r ''bucket'' of None \<Rightarrow> [] | Some b \<Rightarrow> b"
  obtain cb1 rb e where g: "limit cb r ?bucket action ((0,0),(0,0),(0,0),(0,0)) = (cb1, rb, e)"
    by (cases "limit cb r ?bucket action ((0,0),(0,0),(0,0),(0,0))")
  from gate_release_frame [OF g] True g show ?thesis
    by (simp add: Limit_def quiet_def Let_def)
qed

lemma restored_of_Load:
  assumes "\<And>k. counter_Load cb' k = counter_Load cb k"
    and "dom (counters cb) \<subseteq> dom (counters cb')"
  shows "counters cb' |` dom (counters cb) = counters cb"
proof
  fix k
  show "(counters cb' |` dom (counters cb)) k = counters cb k"
  proof (cases "counters cb k")
    case None
    then show ?thesis by (simp add: restrict_map_def domIff)
  next
    case (Some v)
    with assms(2) obtain v' where v': "counters cb' k = Some v'" by blast
    with assms(1) [of k] Some show ?thesis
      by (simp add: restrict_map_def counter_Load_def domI)
  qed
qed

lemma serve_all_Load:
  "counter_Load (fst (serve_all f W reqs (cb, w))) k = counter_Load cb k"
proof (induction reqs arbitrary: cb w)
  case Nil
  then show ?case by (simp add: serve_all_def)
next
  case (Cons x reqs)
  obtain action r where x: "x = (action, r)" by (cases x)
  obtain cb1 w1 where s: "Limit f W action quiet r (cb, w) = (cb1, w1)"
    by (cases "Limit f W action quiet r (cb, w)")
  have "serve_all f W (x # reqs) (cb, w) = serve_all f W reqs (cb1, w1)"
    by (simp add: serve_all_def x s)
  with Cons.IH [of cb1 w1] Limit_quiet_Load [of f W action r cb w k] s show ?case
    by simp
qed

lemma serve_all_dom:
  "dom (counters cb) \<subseteq> dom (counters (fst (serve_all f W reqs (cb, w))))"
proof (induction reqs arbitrary: cb w)
  case Nil
  then show ?case by (simp add: serve_all_def)
next
  case (Cons x reqs)
  obtain action r where x: "x = (action, r)" by (cases x)
  obtain cb1 w1 where s: "Limit f W action quiet r (cb, w) = (cb1, w1)"
    by (cases "Limit f W action quiet r (cb, w)")
  have "serve_all f W (x # reqs) (cb, w) = serve_all f W reqs (cb1, w1)"
    by (simp add: serve_all_def x s)
  moreover from Limit_quiet_frame [of f W action r cb w] s
  have "dom (counters cb) \<subseteq> dom (counters cb1)"
    by simp
  ultimately show ?case
    using Cons.IH [of cb1 w1] by (simp only: subset_trans)
qed

lemma limit_quiet_Load:
  assumes "limit cb r bucket action quiet = (cb', rb, e)"
  shows "counter_Load cb' k = counter_Load cb k + held rb k"
proof -
  have q: "env_added cb action (zip (gate_checks r bucket) [(0, 0), (0, 0), (0, 0), (0, 0)]) k = 0"
    by (rule env_added_quiet) (simp add: gate_checks_def)
  from assms have "run_checks cb action (zip (gate_checks r bucket) [(0, 0), (0, 0), (0, 0), (0, 0)]) =
      (cb', rb, e)"
    by (simp add: quiet_def limit_run_checks)
  from run_checks_Load [OF this, of k] q show ?thesis by simp
qed

lemma inflight_held_remove:
  assumes "i < length fl"
  shows "inflight_held (take i fl @ drop (Suc i) fl) k = inflight_held fl k - held (fl ! i) k"
proof -
  from assms have "fl = take i fl @ fl ! i # drop (Suc i) fl"
    by (rule id_take_nth_drop)
  then have "inflight_held fl k =
      inflight_held (take i fl) k + held (fl ! i) k + inflight_held (drop (Suc i) fl) k"
    unfolding inflight_held_def
    by (metis (no_types, lifting) add.assoc list.simps(9) map_append sum_list.Cons sum_list_append)
  then show ?thesis by (simp add: inflight_held_def)
qed

lemma step_invariant:
  "step ev (cb, fl) = (cb', fl') \<Longrightarrow>
   counter_Load cb' k - inflight_held fl' k = counter_Load cb k - inflight_held fl k"
proof (cases ev)
  case (Begin action r)
  assume s: "step ev (cb, fl) = (cb', fl')"
  show ?thesis
  proof (cases "Enabled cb")
    case False
    with s Begin show ?thesis by (auto simp: inflight_held_def)
  next
    case True
    let ?bucket = "case Vars r ''bucket'' of None \<Rightarrow> [] | Some b \<Rightarrow> b"
    obtain cb1 rb e where g: "limit cb r ?bucket action quiet = (cb1, rb, e)"
      by (cases "limit cb r ?bucket action quiet")
    from s Begin True g have "cb' = cb1" "fl' = fl @ [rb]" by auto
    with limit_quiet_Load [OF g, of k] show ?thesis by (simp add: inflight_held_def)
  qed
next
  case (Finish i)
  assume s: "step ev (cb, fl) = (cb', fl')"
  show ?thesis
  proof (cases "i < length fl")
    case True
    with s Finish have "cb' = run_rollback (fl ! i) cb" "fl' = take i fl @ drop (Suc i) fl"
      by auto
    with inflight_held_remove [OF True, of k] show ?thesis
      by (simp add: run_rollback_Load)
  next
    case False
    with s Finish show ?thesis by auto
  qed
next
  case (Reload cfg)
  assume s: "step ev (cb, fl) = (cb', fl')"
  with Reload show ?thesis
    by (auto simp: loadCircuitBreakerConfig_def Let_def counter_Load_def split: option.splits prod.splits)
qed

lemma run_events_invariant:
  "counter_Load (fst (run_events evs (cb, fl))) k - inflight_held (snd (run_events evs (cb, fl))) k =
   counter_Load cb k - inflight_held fl k"
proof (induction evs arbitrary: cb fl)
  case Nil
  then show ?case by (simp add: run_events_def)
next
  case (Cons ev evs)
  obtain cb1 fl1 where s: "step ev (cb, fl) = (cb1, fl1)"
    by (cases "step ev (cb, fl)")
  have "run_events (ev # evs) (cb, fl) = run_events evs (cb1, fl1)"
    by (simp add: run_events_def s)
  with Cons.IH [of cb1 fl1] step_invariant [OF s, of k] show ?case by simp
qed

lemma run_events_Load:
  "counter_Load (fst (run_events evs (cb, []))) k =
     counter_Load cb k + inflight_held (snd (run_events evs (cb, []))) k"
  using run_events_invariant [of evs cb "[]" k] by (simp add: inflight_held_def algebra_simps)

section \<open>Facts about the example run\<close>

lemma cb_loaded_eq:
  "cb_loaded =
     \<lparr>Enabled = True, counters = Map.empty,
      limitations = [''Write:count'' \<mapsto> 100, ''b:Write:bytes'' \<mapsto> 10]\<rparr>"
  by (simp add: cb_loaded_def bytes_limit_config_def loadCircuitBreakerConfig_def
      copy_global_actions_def Separator_def)

lemma first_unknown_passes:
  "limit cb_loaded (request_of_length (- 1)) ''b'' ''Write'' quiet =
     (\<lparr>Enabled = True, counters = [''b:Write:bytes'' \<mapsto> - 1],
      limitations = [''Write:count'' \<mapsto> 100, ''b:Write:bytes'' \<mapsto> 10]\<rparr>,
      [(''b:Write:bytes'', - 1)], ErrNone)"
  by (simp add: cb_loaded_eq limit_def quiet_def request_of_length_def loadCounterAndCompare_def
      Separator_def LimitTypeCount_def LimitTypeBytes_def append_rollback_def Let_def
      counter_Load_def counter_Add_def word_sless_alt)

lemma second_unknown_passes:
  "limit
     \<lparr>Enabled = True, counters = [''b:Write:bytes'' \<mapsto> - 1],
      limitations = [''Write:count'' \<mapsto> 100, ''b:Write:bytes'' \<mapsto> 10]\<rparr>
     (request_of_length (- 1)) ''b'' ''Write'' quiet =
     (\<lparr>Enabled = True, counters = [''b:Write:bytes'' \<mapsto> - 2],
      limitations = [''Write:count'' \<mapsto> 100, ''b:Write:bytes'' \<mapsto> 10]\<rparr>,
      [(''b:Write:bytes'', - 1)], ErrNone)"
  by (simp add: limit_def quiet_def request_of_length_def loadCounterAndCompare_def
      Separator_def LimitTypeCount_def LimitTypeBytes_def append_rollback_def Let_def
      counter_Load_def counter_Add_def word_sless_alt)

lemma upload_passes:
  "limit
     \<lparr>Enabled = True, counters = [''b:Write:bytes'' \<mapsto> - 2],
      limitations = [''Write:count'' \<mapsto> 100, ''b:Write:bytes'' \<mapsto> 10]\<rparr>
     (request_of_length 12) ''b'' ''Write'' quiet =
     (\<lparr>Enabled = True, counters = [''b:Write:bytes'' \<mapsto> 10],
      limitations = [''Write:count'' \<mapsto> 100, ''b:Write:bytes'' \<mapsto> 10]\<rparr>,
      [(''b:Write:bytes'', 12)], ErrNone)"
  by (simp add: limit_def quiet_def request_of_length_def loadCounterAndCompare_def
      Separator_def LimitTypeCount_def LimitTypeBytes_def append_rollback_def Let_def
      counter_Load_def counter_Add_def word_sless_alt)

lemma cb_unknown_released_eq:
  "cb_unknown_released =
     \<lparr>Enabled = True, counters = [''b:Write:bytes'' \<mapsto> 12],
      limitations = [''Write:count'' \<mapsto> 100, ''b:Write:bytes'' \<mapsto> 10]\<rparr>"
  by (simp add: cb_unknown_released_def cb_upload_admitted_def cb_two_unknown_def
      cb_one_unknown_def first_unknown_passes second_unknown_passes upload_passes
      counter_Sub_def counter_Load_def)

lemma cb_one_byte_eq:
  "cb_one_byte =
     \<lparr>Enabled = True, counters = [''b:Write:bytes'' \<mapsto> 1],
      limitations = [''Write:count'' \<mapsto> 100, ''b:Write:bytes'' \<mapsto> 10]\<rparr>"
  by (simp add: cb_one_byte_def cb_loaded_eq limit_def quiet_def request_of_length_def
      loadCounterAndCompare_def Separator_def LimitTypeCount_def LimitTypeBytes_def
      append_rollback_def Let_def counter_Load_def counter_Add_def word_sless_alt)

lemma huge_request_passes:
  "limit cb_one_byte (request_of_length 9223372036854775807) ''b'' ''Write'' quiet =
     (\<lparr>Enabled = True, counters = [''b:Write:bytes'' \<mapsto> 9223372036854775808],
       limitations = [''Write:count'' \<mapsto> 100, ''b:Write:bytes'' \<mapsto> 10]\<rparr>,
      [(''b:Write:bytes'', 9223372036854775807)], ErrNone)"
  by (simp add: cb_one_byte_eq limit_def quiet_def request_of_length_def
      loadCounterAndCompare_def Separator_def LimitTypeCount_def LimitTypeBytes_def
      append_rollback_def Let_def counter_Load_def counter_Add_def word_sless_alt)

lemma cb_huge_admitted_eq:
  "cb_huge_admitted =
     \<lparr>Enabled = True, counters = [''b:Write:bytes'' \<mapsto> 9223372036854775808],
      limitations = [''Write:count'' \<mapsto> 100, ''b:Write:bytes'' \<mapsto> 10]\<rparr>"
  by (simp add: cb_huge_admitted_def huge_request_passes)

lemma sint_add_in_range:
  fixes a b :: int64
  assumes "- (2 ^ 63) \<le> sint a + sint b" and "sint a + sint b < 2 ^ 63"
  shows "sint (a + b) = sint a + sint b"
  using assms by (simp add: sint_word_ariths signed_take_bit_int_eq_self)

section \<open>Enabled flag after a load\<close>

text \<open>
  C9. After a load, which always succeeds, the Enabled flag is true exactly when the
  global section is present, its enabled flag is set and it has at least one action;
  an enabled global section without actions leaves the gate disabled.
\<close>

theorem C9_enabled_iff_global_active:
  "fst (loadCircuitBreakerConfig cfg cb) = None \<and>
   (Enabled (snd (loadCircuitBreakerConfig cfg cb)) \<longleftrightarrow>
      (\<exists>g. Global cfg = Some g \<and> opt_Enabled g \<and> Actions g \<noteq> [])) \<and>
   \<not> Enabled (snd (loadCircuitBreakerConfig
        \<lparr>Global = Some \<lparr>opt_Enabled = True, Actions = []\<rparr>, Buckets = bs\<rparr> cb))"
  by (simp add: loadCircuitBreakerConfig_def Let_def split: option.split)

section \<open>A reload keeps the counters\<close>

text \<open>
  C7. A load of any configuration, directly or from bytes that decode or do not,
  assigns only the Enabled flag and the limit table: the counter store after it is the
  counter store before it, so every counter keeps the value it has while requests are
  in flight.
\<close>

theorem C7_reload_keeps_counters:
  "counters (snd (loadCircuitBreakerConfig cfg cb)) = counters cb \<and>
   fst (loadCircuitBreakerConfig cfg cb) = None \<and>
   counters (snd (LoadS3ApiConfigurationFromBytes parse content cb)) = counters cb \<and>
   counter_Load (snd (loadCircuitBreakerConfig cfg cb)) k = counter_Load cb k"
  by (simp add: loadCircuitBreakerConfig_def LoadS3ApiConfigurationFromBytes_def Let_def
      counter_Load_def split: option.split sum.split prod.split)

section \<open>A configuration that does not decode\<close>

text \<open>
  C6. When the decoder fails on the content, the load returns the error
  "unmarshal error: ..." with the decoder's message and the circuit breaker is exactly
  as before. A circuit breaker constructed from content that does not decode, or
  without any content, is in its initial state (Enabled false, no limits, no counters),
  and its gate passes every request to the handler.
\<close>

theorem C6_decode_failure_keeps_state:
  assumes "parse content = Inl e"
  shows "LoadS3ApiConfigurationFromBytes parse content cb = (Some (''unmarshal error: '' @ e), cb) \<and>
         NewCircuitBreaker parse (Inr content) =
           \<lparr>Enabled = False, counters = Map.empty, limitations = Map.empty\<rparr> \<and>
         NewCircuitBreaker parse (Inl e') =
           \<lparr>Enabled = False, counters = Map.empty, limitations = Map.empty\<rparr> \<and>
         Limit f WriteErrorResponse action env r (NewCircuitBreaker parse (Inr content), w) =
           (NewCircuitBreaker parse (Inr content), f r w)"
  using assms
  by (simp add: LoadS3ApiConfigurationFromBytes_def NewCircuitBreaker_def Limit_def)

theorem C6_decode_failure_keeps_state_witness:
  "(\<lambda>c. if c = [] then Inl ''unexpected end of JSON input''
         else Inr \<lparr>Global = None, Buckets = []\<rparr>) ([] :: 8 word list) =
     Inl ''unexpected end of JSON input'' \<and>
   LoadS3ApiConfigurationFromBytes
     (\<lambda>c. if c = [] then Inl ''unexpected end of JSON input''
          else Inr \<lparr>Global = None, Buckets = []\<rparr>) []
     \<lparr>Enabled = True, counters = [''k'' \<mapsto> 3], limitations = [''k'' \<mapsto> 5]\<rparr> =
     (Some ''unmarshal error: unexpected end of JSON input'',
      \<lparr>Enabled = True, counters = [''k'' \<mapsto> 3], limitations = [''k'' \<mapsto> 5]\<rparr>)"
proof -
  let ?parse = "\<lambda>c :: 8 word list. if c = [] then Inl ''unexpected end of JSON input''
                  else Inr \<lparr>Global = None, Buckets = []\<rparr>"
  have fails: "?parse [] = Inl ''unexpected end of JSON input''"
    by simp
  from C6_decode_failure_keeps_state [of ?parse, OF fails, THEN conjunct1,
      of "\<lparr>Enabled = True, counters = [''k'' \<mapsto> 3], limitations = [''k'' \<mapsto> 5]\<rparr>"] fails
  show ?thesis
    by simp
qed

section \<open>The disabled gate\<close>

text \<open>
  C2. When the Enabled flag is false, the handler that \<open>Limit\<close> returns runs the
  wrapped handler and nothing else: no error response is written, and the circuit
  breaker, its counter store included, is returned as it was, whatever the limit
  table and the counter store hold.
\<close>

theorem C2_disabled_gate_runs_handler:
  assumes "\<not> Enabled cb"
  shows "Limit f WriteErrorResponse action env r (cb, w) = (cb, f r w) \<and>
         Limit f WriteErrorResponse action env r (cb\<lparr>counters := cs, limitations := ls\<rparr>, w) =
           (cb\<lparr>counters := cs, limitations := ls\<rparr>, f r w)"
  using assms by (simp add: Limit_def)

theorem C2_disabled_gate_runs_handler_witness:
  "\<not> Enabled (snd (loadCircuitBreakerConfig
       \<lparr>Global = None,
        Buckets = [(''b'', \<lparr>opt_Enabled = True, Actions = [(''Write:count'', 0)]\<rparr>)]\<rparr>
       \<lparr>Enabled = False, counters = Map.empty, limitations = Map.empty\<rparr>)) \<and>
   limitations (snd (loadCircuitBreakerConfig
       \<lparr>Global = None,
        Buckets = [(''b'', \<lparr>opt_Enabled = True, Actions = [(''Write:count'', 0)]\<rparr>)]\<rparr>
       \<lparr>Enabled = False, counters = Map.empty, limitations = Map.empty\<rparr>))
     (Concat [''b'', ''Write'', LimitTypeCount]) = Some 0 \<and>
   Limit (\<lambda>r w. Suc w) (\<lambda>r e w. 0) ''Write'' quiet
       \<lparr>ContentLength = 7, Vars = [''bucket'' \<mapsto> ''b'']\<rparr>
       (snd (loadCircuitBreakerConfig
          \<lparr>Global = None,
           Buckets = [(''b'', \<lparr>opt_Enabled = True, Actions = [(''Write:count'', 0)]\<rparr>)]\<rparr>
          \<lparr>Enabled = False, counters = Map.empty, limitations = Map.empty\<rparr>), 5) =
     (snd (loadCircuitBreakerConfig
          \<lparr>Global = None,
           Buckets = [(''b'', \<lparr>opt_Enabled = True, Actions = [(''Write:count'', 0)]\<rparr>)]\<rparr>
          \<lparr>Enabled = False, counters = Map.empty, limitations = Map.empty\<rparr>), 6)"
proof -
  let ?cb = "snd (loadCircuitBreakerConfig
       \<lparr>Global = None,
        Buckets = [(''b'', \<lparr>opt_Enabled = True, Actions = [(''Write:count'', 0)]\<rparr>)]\<rparr>
       \<lparr>Enabled = False, counters = Map.empty, limitations = Map.empty\<rparr>)"
  have off: "\<not> Enabled ?cb"
    by (simp add: loadCircuitBreakerConfig_def)
  have lim: "limitations ?cb (Concat [''b'', ''Write'', LimitTypeCount]) = Some 0"
    by (simp add: loadCircuitBreakerConfig_def copy_buckets_def copy_bucket_actions_def
        Separator_def LimitTypeCount_def)
  from C2_disabled_gate_runs_handler [OF off, THEN conjunct1,
      of "\<lambda>r w. Suc w" "\<lambda>r e w. 0" "''Write''" quiet
         "\<lparr>ContentLength = 7, Vars = [''bucket'' \<mapsto> ''b'']\<rparr>" 5] off lim
  show ?thesis
    by simp
qed

section \<open>A single check\<close>




section \<open>The order of the checks\<close>

text \<open>
  C5. \<open>limit\<close> is the evaluation, in order and up to the first rejection, of the four
  checks that the specification lists: bucket count with increment 1, bucket bytes with
  the declared content length, global count with increment 1, global bytes with the
  declared content length; the count checks carry \<open>ErrTooManyRequest\<close> and the bytes
  checks \<open>ErrRequestBytesExceed\<close>, and a check returns no error or the code it carries.
\<close>

theorem C5_limit_runs_four_checks_in_order:
  "limit cb r bucket action (e1, e2, e3, e4) =
     run_checks cb action (zip (gate_checks r bucket) [e1, e2, e3, e4]) \<and>
   length (gate_checks r bucket) = 4 \<and>
   snd (snd (loadCounterAndCompare cb scope action limitType inc errCode env))
     \<in> {ErrNone, errCode}"
  using check_code [of cb scope action limitType inc errCode env]
  by (simp add: limit_run_checks gate_checks_def)

section \<open>Global limits\<close>

text \<open>
  The loader stores a global limit under the key of its configuration entry, and the
  gate looks a global limit up under \<open>Concat("", action, limitType)\<close>, which begins
  with the separator. Whether the entry is keyed by the action and the metric kind or by
  the action alone, the gate does not find it: every request passes all four checks
  and no counter is touched.
\<close>

lemma global_limit_never_looked_up:
  "Enabled (snd (loadCircuitBreakerConfig (global_only (Concat [action, LimitTypeCount]) n) cb)) \<and>
   limitations (snd (loadCircuitBreakerConfig (global_only (Concat [action, LimitTypeCount]) n) cb))
     (Concat [action, LimitTypeCount]) = Some n \<and>
   limitations (snd (loadCircuitBreakerConfig (global_only (Concat [action, LimitTypeCount]) n) cb))
     (Concat [[], action, LimitTypeCount]) = None \<and>
   limit (snd (loadCircuitBreakerConfig (global_only (Concat [action, LimitTypeCount]) n) cb))
     r bucket action env =
     (snd (loadCircuitBreakerConfig (global_only (Concat [action, LimitTypeCount]) n) cb), [], ErrNone) \<and>
   limitations (snd (loadCircuitBreakerConfig (global_only action n) cb))
     (Concat [[], action, LimitTypeCount]) = None \<and>
   limit (snd (loadCircuitBreakerConfig (global_only action n) cb)) r bucket action env =
     (snd (loadCircuitBreakerConfig (global_only action n) cb), [], ErrNone)"
proof -
  have a: "Concat [b, action, t] \<noteq> Concat [action, LimitTypeCount]" if "length t = 5" for b t
    using that by (intro gate_key_neq_config_key) (simp add: length_LimitType)
  have b: "Concat [b, action, t] \<noteq> action" for b t
    by (rule gate_key_neq_action)
  from a [of LimitTypeCount "[]"] b [of "[]" LimitTypeCount]
  show ?thesis
    by (simp add: load_global_only single_limit_gate_passes [OF a] single_limit_gate_passes [OF b]
        length_LimitType del: Concat.simps)
qed

text \<open>
  C1. With the configuration whose only content is the enabled global section
  \<open>Write:count\<close> \<open>\<mapsto>\<close> 0, the load enables the gate and registers the limit under
  \<open>Write:count\<close>. A request for the action \<open>Write\<close> then passes the gate without a
  release action and without a counter: the global count check looked up
  \<open>:Write:count\<close> and found no limit, where a limit of 0 rejects every request.
\<close>

theorem C1_global_limit_not_enforced:
  "limit (snd (loadCircuitBreakerConfig
       \<lparr>Global = Some \<lparr>opt_Enabled = True, Actions = [(''Write:count'', 0)]\<rparr>, Buckets = []\<rparr>
       \<lparr>Enabled = False, counters = Map.empty, limitations = Map.empty\<rparr>))
     \<lparr>ContentLength = 0, Vars = [''bucket'' \<mapsto> ''b'']\<rparr> ''b'' ''Write'' quiet =
   (\<lparr>Enabled = True, counters = Map.empty, limitations = [''Write:count'' \<mapsto> 0]\<rparr>, [], ErrNone)"
  by (simp add: loadCircuitBreakerConfig_def copy_global_actions_def limit_def quiet_def
      loadCounterAndCompare_def Separator_def LimitTypeCount_def LimitTypeBytes_def
      append_rollback_def)

section \<open>Bucket limits\<close>

text \<open>
  C8. For an entry of a bucket of the buckets section, whatever the global section is:
  when the bucket is enabled the key of the entry is in the new limit table; when the
  bucket is not enabled the new limit table is the one that the configuration without
  this bucket gives; and when no two entries of the configuration stand for the same
  key, the new limit table holds the entry's limit under the entry's key exactly when
  the bucket is enabled.
\<close>

theorem C8_bucket_limits_follow_bucket_flag:
  assumes "(b, opts) \<in> set (Buckets cfg)" and "(a, l) \<in> set (Actions opts)"
  shows "(opt_Enabled opts \<longrightarrow>
            Concat [b, a] \<in> dom (limitations (snd (loadCircuitBreakerConfig cfg cb)))) \<and>
         (\<not> opt_Enabled opts \<longrightarrow>
            limitations (snd (loadCircuitBreakerConfig cfg cb)) =
            limitations (snd (loadCircuitBreakerConfig
               (cfg\<lparr>Buckets := filter (\<lambda>x. x \<noteq> (b, opts)) (Buckets cfg)\<rparr>) cb))) \<and>
         (distinct (config_keys cfg) \<longrightarrow>
            (limitations (snd (loadCircuitBreakerConfig cfg cb)) (Concat [b, a]) = Some l
               \<longleftrightarrow> opt_Enabled opts))"
proof (intro conjI impI)
  assume "opt_Enabled opts"
  with assms show "Concat [b, a] \<in> dom (limitations (snd (loadCircuitBreakerConfig cfg cb)))"
    unfolding load_limitations by (intro copy_buckets_enabled_dom)
next
  assume "\<not> opt_Enabled opts"
  then show "limitations (snd (loadCircuitBreakerConfig cfg cb)) =
      limitations (snd (loadCircuitBreakerConfig
         (cfg\<lparr>Buckets := filter (\<lambda>x. x \<noteq> (b, opts)) (Buckets cfg)\<rparr>) cb))"
    unfolding load_limitations by (simp add: copy_buckets_disabled_removed)
next
  assume d: "distinct (config_keys cfg)"
  let ?k = "Concat [b, a]"
  from d have db: "distinct (bucket_keys (Buckets cfg))"
    by (simp add: config_keys_def)
  from assms bucket_key_in_image [OF assms(2), of b] have "?k \<in> set (bucket_keys (Buckets cfg))"
    by (force simp: bucket_keys_def simp del: Concat.simps)
  with d have "?k \<notin> set (case Global cfg of None \<Rightarrow> [] | Some g \<Rightarrow> map fst (Actions g))"
    by (auto simp: config_keys_def simp del: Concat.simps)
  from global_part_other [OF this] copy_buckets_value [OF db assms]
  show "limitations (snd (loadCircuitBreakerConfig cfg cb)) ?k = Some l \<longleftrightarrow> opt_Enabled opts"
    unfolding load_limitations by (simp del: Concat.simps)
qed

theorem C8_bucket_limits_follow_bucket_flag_witness:
  "(''b1'', \<lparr>opt_Enabled = True, Actions = [(''Write:count'', 3)]\<rparr>) \<in> set (Buckets two_buckets) \<and>
   (''b2'', \<lparr>opt_Enabled = False, Actions = [(''Write:count'', 4)]\<rparr>) \<in> set (Buckets two_buckets) \<and>
   distinct (config_keys two_buckets) \<and>
   limitations (snd (loadCircuitBreakerConfig two_buckets
       \<lparr>Enabled = False, counters = Map.empty, limitations = Map.empty\<rparr>)) (Concat [''b1'', ''Write:count'']) =
     Some 3 \<and>
   limitations (snd (loadCircuitBreakerConfig two_buckets
       \<lparr>Enabled = False, counters = Map.empty, limitations = Map.empty\<rparr>)) (Concat [''b2'', ''Write:count'']) \<noteq>
     Some 4"
proof -
  let ?cb = "\<lparr>Enabled = False, counters = Map.empty, limitations = Map.empty\<rparr>"
  let ?o1 = "\<lparr>opt_Enabled = True, Actions = [(''Write:count'', 3 :: int64)]\<rparr>"
  let ?o2 = "\<lparr>opt_Enabled = False, Actions = [(''Write:count'', 4 :: int64)]\<rparr>"
  have m1: "(''b1'', ?o1) \<in> set (Buckets two_buckets)"
    and m2: "(''b2'', ?o2) \<in> set (Buckets two_buckets)"
    by (simp_all add: two_buckets_def)
  have a1: "(''Write:count'', 3) \<in> set (Actions ?o1)"
    and a2: "(''Write:count'', 4) \<in> set (Actions ?o2)"
    by simp_all
  have d: "distinct (config_keys two_buckets)"
    by (simp add: config_keys_def bucket_keys_def two_buckets_def Separator_def)
  note t1 = C8_bucket_limits_follow_bucket_flag [OF m1 a1, of ?cb, THEN conjunct2, THEN conjunct2,
      rule_format, OF d]
  note t2 = C8_bucket_limits_follow_bucket_flag [OF m2 a2, of ?cb, THEN conjunct2, THEN conjunct2,
      rule_format, OF d]
  from t1 t2 m1 m2 d show ?thesis
    by (simp del: Concat.simps)
qed

section \<open>Release\<close>

text \<open>
  C4. After the release actions that the gate collected for a request have run, every
  counter holds the value it had before the gate ran plus what other requests added to
  it meanwhile, whether the gate admitted the request or rejected it at a pre-check or
  at a re-check; an undisturbed gate has nothing added by others. So the handler of
  \<open>Limit\<close>, undisturbed, leaves every counter with the value it had, every counter that
  existed before exactly as it was and every counter it installed at 0, and so does
  serving any list of requests one after the other. When requests overlap, and the
  configuration is reloaded in between, every counter holds its initial value plus the
  increments of the requests still in flight, which is its initial value once none is
  in flight.
\<close>

theorem C4_release_restores_counters:
  "counter_Load
     (run_rollback (fst (snd (limit cb r bucket action (e1, e2, e3, e4))))
        (fst (limit cb r bucket action (e1, e2, e3, e4)))) k =
     counter_Load cb k + env_added cb action (zip (gate_checks r bucket) [e1, e2, e3, e4]) k \<and>
   env_added cb action (zip (gate_checks r bucket) [(0, 0), (0, 0), (0, 0), (0, 0)]) k = 0 \<and>
   counter_Load (fst (Limit f WriteErrorResponse action quiet r (cb, w))) k = counter_Load cb k \<and>
   counters (fst (Limit f WriteErrorResponse action quiet r (cb, w))) |` dom (counters cb) =
     counters cb \<and>
   counter_Load (fst (serve_all f WriteErrorResponse reqs (cb, w))) k = counter_Load cb k \<and>
   counters (fst (serve_all f WriteErrorResponse reqs (cb, w))) |` dom (counters cb) = counters cb \<and>
   counter_Load (fst (run_events evs (cb, []))) k =
     counter_Load cb k + inflight_held (snd (run_events evs (cb, []))) k \<and>
   inflight_held [] k = 0"
proof -
  obtain cb1 rb e where g: "limit cb r bucket action (e1, e2, e3, e4) = (cb1, rb, e)"
    by (cases "limit cb r bucket action (e1, e2, e3, e4)")
  have q: "env_added cb action (zip (gate_checks r bucket) [(0, 0), (0, 0), (0, 0), (0, 0)]) k = 0"
    by (rule env_added_quiet) (simp add: gate_checks_def)
  have one: "counters (fst (Limit f WriteErrorResponse action quiet r (cb, w))) |` dom (counters cb) =
     counters cb"
    by (rule restored_of_Load) (simp_all add: Limit_quiet_Load Limit_quiet_frame)
  have all: "counters (fst (serve_all f WriteErrorResponse reqs (cb, w))) |` dom (counters cb) =
     counters cb"
    by (rule restored_of_Load) (simp_all add: serve_all_Load serve_all_dom)
  have none: "inflight_held [] k = 0"
    by (simp add: inflight_held_def)
  from gate_release_Load [OF g, of k] g q one all none run_events_Load [of evs cb k] show ?thesis
    by (simp add: Limit_quiet_Load serve_all_Load)
qed

section \<open>Requests of unknown length\<close>

text \<open>
  C10, as stated, fails, in three ways. On the first example run the counter of the
  bytes limit 10 stands at 12 once the two requests of unknown length have released
  their \<open>-1\<close>; a further request of unknown length is then rejected by the bucket bytes
  check with \<open>ErrRequestBytesExceed\<close>, at the pre-check. On the second example run the
  counter stands at the signed value \<open>-2^63\<close>, below the threshold, and the sum with
  \<open>-1\<close> wraps around to \<open>2^63 - 1\<close>: the request of unknown length is rejected at the
  pre-check. And on the freshly loaded configuration a request of unknown length that
  passes the pre-check is rejected at the re-check when other requests add 20 bytes
  between its \<open>Add\<close> and its second \<open>Load\<close>.
\<close>

theorem C10_unknown_length_rejected:
  "ContentLength (request_of_length (- 1)) <s 0 \<and>
   limitations cb_unknown_released (Concat [''b'', ''Write'', LimitTypeBytes]) = Some 10 \<and>
   (0 :: int64) \<le>s 10 \<and>
   loadCounterAndCompare cb_unknown_released ''b'' ''Write'' LimitTypeBytes
      (ContentLength (request_of_length (- 1))) ErrRequestBytesExceed (0, 0) =
     (cb_unknown_released, None, ErrRequestBytesExceed) \<and>
   limit cb_unknown_released (request_of_length (- 1)) ''b'' ''Write'' quiet =
     (cb_unknown_released, [], ErrRequestBytesExceed) \<and>
   limitations cb_huge_admitted (Concat [''b'', ''Write'', LimitTypeBytes]) = Some 10 \<and>
   counter_Load cb_huge_admitted ''b:Write:bytes'' \<le>s 10 \<and>
   limit cb_huge_admitted (request_of_length (- 1)) ''b'' ''Write'' quiet =
     (cb_huge_admitted, [], ErrRequestBytesExceed) \<and>
   limitations cb_loaded (Concat [''b'', ''Write'', LimitTypeBytes]) = Some 10 \<and>
   loadCounterAndCompare cb_loaded ''b'' ''Write'' LimitTypeBytes
      (ContentLength (request_of_length (- 1))) ErrRequestBytesExceed (0, 20) =
     (cb_loaded\<lparr>counters := [''b:Write:bytes'' \<mapsto> 19]\<rparr>,
      Some (''b:Write:bytes'', - 1), ErrRequestBytesExceed)"
  by (simp add: cb_unknown_released_eq cb_huge_admitted_eq cb_loaded_eq limit_def quiet_def
      request_of_length_def loadCounterAndCompare_def
      Separator_def LimitTypeCount_def LimitTypeBytes_def append_rollback_def Let_def
      counter_Load_def counter_Add_def word_sle_eq word_sless_alt)

text \<open>
  C10, amended. For a check with a negative increment on a key with a registered
  threshold, whose counter is not so low that adding the increment leaves the range of
  \<open>int64\<close>: the pre-check rejects, with the error code and without increment, exactly
  when the counter's value plus the increment exceeds the threshold, which it does not
  when the counter itself does not exceed the threshold; after a passed pre-check the
  re-check rejects exactly when the value read again exceeds the threshold, which it
  does not when no other request disturbs the check. The counter is lower by the
  increment while the request is in flight, below zero if it was not above zero, and
  the release action restores the value.
\<close>

theorem C10_unknown_length_check:
  assumes lim: "limitations cb (Concat [bucket, action, limitType]) = Some threshold"
    and key: "key = Concat [bucket, action, limitType]"
    and neg: "inc <s 0"
    and range: "- (2 ^ 63) \<le> sint (counter_Load cb key) + sint inc"
  shows "loadCounterAndCompare cb bucket action limitType inc errCode (d1, d2) =
           (if sint threshold < sint (counter_Load cb key) + sint inc
            then (cb\<lparr>counters := (counters cb)(key \<mapsto> counter_Load cb key)\<rparr>, None, errCode)
            else (cb\<lparr>counters := (counters cb)(key \<mapsto> counter_Load cb key + d1 + inc + d2)\<rparr>,
                  Some (key, inc),
                  if threshold <s counter_Load cb key + d1 + inc + d2 then errCode else ErrNone)) \<and>
         (\<not> sint threshold < sint (counter_Load cb key) + sint inc \<longrightarrow>
            loadCounterAndCompare cb bucket action limitType inc errCode (0, 0) =
              (cb\<lparr>counters := (counters cb)(key \<mapsto> counter_Load cb key + inc)\<rparr>,
               Some (key, inc), ErrNone)) \<and>
         (counter_Load cb key \<le>s threshold \<longrightarrow>
            \<not> sint threshold < sint (counter_Load cb key) + sint inc) \<and>
         counter_Load cb key + inc <s counter_Load cb key \<and>
         (counter_Load cb key \<le>s 0 \<longrightarrow> counter_Load cb key + inc <s 0) \<and>
         run_rollback [(key, inc)]
           (cb\<lparr>counters := (counters cb)(key \<mapsto> counter_Load cb key + inc)\<rparr>) =
           cb\<lparr>counters := (counters cb)(key \<mapsto> counter_Load cb key)\<rparr>"
proof -
  let ?c = "counter_Load cb key"
  from neg have n: "sint inc < 0" by (simp add: word_sless_alt)
  have "sint ?c < 2 ^ 63" using sint_lt [of ?c] by simp
  with n have up: "sint ?c + sint inc < 2 ^ 63" by linarith
  have s: "sint (?c + inc) = sint ?c + sint inc"
    by (rule sint_add_in_range [OF range up])
  have pre: "threshold <s ?c + inc \<longleftrightarrow> sint threshold < sint ?c + sint inc"
    by (simp add: word_sless_alt s)
  from s n have dec: "?c + inc <s ?c" by (simp add: word_sless_alt)
  from s n have below: "?c \<le>s 0 \<longrightarrow> ?c + inc <s 0"
    by (simp add: word_sless_alt word_sle_eq)
  from n have le: "?c \<le>s threshold \<longrightarrow> \<not> sint threshold < sint ?c + sint inc"
    by (simp add: word_sle_eq)
  from lim key
  have run: "loadCounterAndCompare cb bucket action limitType inc errCode (e1, e2) =
       (if threshold <s ?c + inc
        then (cb\<lparr>counters := (counters cb)(key \<mapsto> ?c)\<rparr>, None, errCode)
        else (cb\<lparr>counters := (counters cb)(key \<mapsto> ?c + e1 + inc + e2)\<rparr>, Some (key, inc),
              if threshold <s ?c + e1 + inc + e2 then errCode else ErrNone))" for e1 e2
    by (auto simp add: loadCounterAndCompare_def Let_def counter_Load_def counter_Add_def
        fun_eq_iff split: option.splits simp del: Concat.simps)
  have quiet_run: "\<not> sint threshold < sint ?c + sint inc \<longrightarrow>
      loadCounterAndCompare cb bucket action limitType inc errCode (0, 0) =
        (cb\<lparr>counters := (counters cb)(key \<mapsto> ?c + inc)\<rparr>, Some (key, inc), ErrNone)"
    using run [of 0 0] pre by simp
  have rel: "run_rollback [(key, inc)] (cb\<lparr>counters := (counters cb)(key \<mapsto> ?c + inc)\<rparr>) =
       cb\<lparr>counters := (counters cb)(key \<mapsto> ?c)\<rparr>"
    by (simp add: counter_Sub_def counter_Load_def)
  from run [of d1 d2] pre quiet_run le dec below rel show ?thesis by simp
qed

theorem C10_unknown_length_check_witness:
  "limitations cb_loaded (Concat [''b'', ''Write'', LimitTypeBytes]) = Some 10 \<and>
   (- 1 :: int64) <s 0 \<and>
   - (2 ^ 63) \<le> sint (counter_Load cb_loaded ''b:Write:bytes'') + sint (- 1 :: int64) \<and>
   loadCounterAndCompare cb_loaded ''b'' ''Write'' LimitTypeBytes (- 1) ErrRequestBytesExceed (0, 0) =
     (cb_loaded\<lparr>counters := [''b:Write:bytes'' \<mapsto> - 1]\<rparr>, Some (''b:Write:bytes'', - 1), ErrNone) \<and>
   run_rollback [(''b:Write:bytes'', - 1)] (cb_loaded\<lparr>counters := [''b:Write:bytes'' \<mapsto> - 1]\<rparr>) =
     cb_loaded\<lparr>counters := [''b:Write:bytes'' \<mapsto> 0]\<rparr>"
proof -
  have lim: "limitations cb_loaded (Concat [''b'', ''Write'', LimitTypeBytes]) = Some 10"
    by (simp add: cb_loaded_eq Separator_def LimitTypeBytes_def)
  have key: "''b:Write:bytes'' = Concat [''b'', ''Write'', LimitTypeBytes]"
    by (simp add: Separator_def LimitTypeBytes_def)
  have neg: "(- 1 :: int64) <s 0"
    by (simp add: word_sless_alt)
  have cur: "counter_Load cb_loaded ''b:Write:bytes'' = 0"
    by (simp add: cb_loaded_eq counter_Load_def)
  have range: "- (2 ^ 63) \<le> sint (counter_Load cb_loaded ''b:Write:bytes'') + sint (- 1 :: int64)"
    by (simp add: cur)
  have cnt: "counters cb_loaded = Map.empty"
    by (simp add: cb_loaded_eq)
  note t = C10_unknown_length_check [OF lim key neg range, of ErrRequestBytesExceed 0 0,
      unfolded cur cnt]
  from t lim neg range show ?thesis
    by (simp add: word_sless_alt)
qed

end
